theory Spec2Isabelle
  imports Complex_Main "HOL-Library.AList" "HOL-Library.Multiset"
begin

section \<open>Values held by a record\<close>

text \<open>
  A record's \<^verbatim>\<open>Values\<close> is a Go \<^verbatim>\<open>map[string]interface{}\<close>. The dynamic types the
  package inspects (in type switches and in \<^verbatim>\<open>isNumeric\<close>) are the constructors below;
  \<open>VNil\<close> is the nil interface and \<open>VOther\<close> stands for every other dynamic type.

  Go's \<^verbatim>\<open>int\<close> is taken to be 64 bits wide. Integers are HOL integers, and the
  places where the package does arithmetic on them (\<^verbatim>\<open>maxKey + 1\<close>, \<^verbatim>\<open>i++\<close>) wrap
  explicitly through \<open>wrap64\<close>.
\<close>

definition INT_MAX :: int where
  "INT_MAX = 2 ^ 63 - 1"

definition INT_MIN :: int where
  "INT_MIN = - (2 ^ 63)"

definition wrap64 :: "int \<Rightarrow> int" where
  "wrap64 x = (x + 2 ^ 63) mod 2 ^ 64 - 2 ^ 63"

text \<open>
  A \<^verbatim>\<open>float64\<close>: a finite value (a rational; the negative zero apart), the two
  infinities and NaN, with the comparisons of IEEE 754 that Go's \<^verbatim>\<open>==\<close>, \<^verbatim>\<open><\<close> ... use.
\<close>

datatype float64 = Fin rat | NegZero | PosInf | NegInf | NaN

fun f64_rank :: "float64 \<Rightarrow> int" where
  "f64_rank NegInf = -1"
| "f64_rank PosInf = 1"
| "f64_rank _ = 0"

fun f64_mag :: "float64 \<Rightarrow> rat" where
  "f64_mag (Fin q) = q"
| "f64_mag _ = 0"

definition f64_lt :: "float64 \<Rightarrow> float64 \<Rightarrow> bool" where
  "f64_lt a b = (a \<noteq> NaN \<and> b \<noteq> NaN \<and>
     (f64_rank a < f64_rank b \<or> (f64_rank a = f64_rank b \<and> f64_mag a < f64_mag b)))"

definition f64_eq :: "float64 \<Rightarrow> float64 \<Rightarrow> bool" where
  "f64_eq a b = (a \<noteq> NaN \<and> b \<noteq> NaN \<and> f64_rank a = f64_rank b \<and> f64_mag a = f64_mag b)"

definition f64_le :: "float64 \<Rightarrow> float64 \<Rightarrow> bool" where
  "f64_le a b = (f64_lt a b \<or> f64_eq a b)"

fun bit_len :: "nat \<Rightarrow> nat" where
  "bit_len n = (if n = 0 then 0 else Suc (bit_len (n div 2)))"

declare bit_len.simps [simp del]

text \<open>
  The conversion \<^verbatim>\<open>float64(n)\<close> of an integer: exact below \<open>2 ^ 53\<close> in magnitude,
  rounded to the nearest value with a 53-bit significand (ties to even) above.
\<close>

definition int_to_f64 :: "int \<Rightarrow> float64" where
  "int_to_f64 n =
     (let a = nat \<bar>n\<bar> in
      if a < 2 ^ 53 then Fin (of_int n)
      else
        let e = bit_len a - 53;
            q = a div 2 ^ e;
            r = a mod 2 ^ e;
            h = 2 ^ (e - 1);
            q' = (if h < r \<or> (r = h \<and> odd q) then q + 1 else q)
        in Fin (of_int (sgn n * int (q' * 2 ^ e))))"

datatype numkind = KInt8 | KInt16 | KInt32 | KUint | KUint8 | KUint16 | KUint32 | KUint64

datatype any_value =
    VNil
  | VBool bool
  | VString string
  | VInt int
  | VInt64 int
  | VIntN numkind int
  | VFloat32 float64
  | VFloat64 float64
  | VStrings "string list"
  | VList "any_value list"
  | VArray2 any_value any_value
  | VTime int
  | VOther string

text \<open>
  A Go map is an association list; the order of the list is the order in which
  \<^verbatim>\<open>range\<close> visits the map. Go leaves that order unspecified, so a statement about a
  map is one about every ordering of its entries.
\<close>

record Record =
  Key :: int
  Values :: "(string \<times> any_value) list"

section \<open>Record: typed accessors\<close>

text \<open>\<^verbatim>\<open>strings.Join(elems, sep)\<close>.\<close>

fun strings_Join :: "string list \<Rightarrow> string \<Rightarrow> string" where
  "strings_Join [] sep = []"
| "strings_Join [x] sep = x"
| "strings_Join (x # y # ys) sep = x @ sep @ strings_Join (y # ys) sep"

text \<open>
  \<^verbatim>\<open>strings.Split(s, sep)\<close> for a separator of one byte \<open>c\<close>: the pieces between the
  occurrences of \<open>c\<close>; a string without \<open>c\<close> (the empty one too) is one piece.
\<close>

fun strings_Split :: "string \<Rightarrow> char \<Rightarrow> string list" where
  "strings_Split [] c = [[]]"
| "strings_Split (x # xs) c =
     (if x = c then [] # strings_Split xs c
      else (case strings_Split xs c of
              [] \<Rightarrow> [[x]]
            | w # ws \<Rightarrow> (x # w) # ws))"

text \<open>
  \<^verbatim>\<open>GetAsStrings\<close>. The parameter \<open>fmt\<close> is \<^verbatim>\<open>fmt.Sprintf("%v", item)\<close> of the Go
  standard library.
\<close>

definition GetAsStrings ::
  "(any_value \<Rightarrow> string) \<Rightarrow> Record \<Rightarrow> string \<Rightarrow> string list \<Rightarrow> string list" where
  "GetAsStrings fmt r col defaultValue =
     (case map_of (Values r) col of
        None \<Rightarrow> defaultValue
      | Some v \<Rightarrow>
          (case v of
             VStrings val \<Rightarrow> val
           | VString val \<Rightarrow> (if val = [] then [] else strings_Split val (CHR '','' :: char))
           | VList val \<Rightarrow> map fmt val
           | _ \<Rightarrow> defaultValue))"

text \<open>
  \<^verbatim>\<open>GetAsBool\<close>. In the clause \<^verbatim>\<open>case int, int64: return val != 0\<close> the variable
  \<^verbatim>\<open>val\<close> keeps the interface type (the clause lists two types), and the untyped
  constant \<^verbatim>\<open>0\<close> becomes an \<^verbatim>\<open>int\<close>. Two interface values are equal only when their
  dynamic types are identical, so an \<^verbatim>\<open>int64\<close> differs from \<^verbatim>\<open>int(0)\<close> whatever its
  value. In the clause \<^verbatim>\<open>case float64\<close> the comparison is the one of floats.
\<close>

definition GetAsBool :: "Record \<Rightarrow> string \<Rightarrow> bool \<Rightarrow> bool" where
  "GetAsBool r col defaultValue =
     (case map_of (Values r) col of
        None \<Rightarrow> defaultValue
      | Some v \<Rightarrow>
          (case v of
             VBool val \<Rightarrow> val
           | VString val \<Rightarrow> (val = ''true'' \<or> val = ''1'')
           | VInt val \<Rightarrow> (VInt val \<noteq> VInt 0)
           | VInt64 val \<Rightarrow> (VInt64 val \<noteq> VInt 0)
           | VFloat64 val \<Rightarrow> \<not> f64_eq val (Fin 0)
           | _ \<Rightarrow> defaultValue))"

text \<open>
  \<^verbatim>\<open>SetStrings\<close>: the list is stored as one comma-joined string. A nil \<^verbatim>\<open>Values\<close>
  is made first; nil and empty maps are both the empty list here.
\<close>

definition SetStrings :: "Record \<Rightarrow> string \<Rightarrow> string list \<Rightarrow> Record" where
  "SetStrings r col val = r\<lparr>Values := AList.update col (VString (strings_Join val '','')) (Values r)\<rparr>"

section \<open>Errors\<close>

datatype error =
    ErrKeyNotFound
  | ErrDuplicateKey
  | ErrClientClosed
  | ErrInvalidOperator string nat
  | ErrInValue nat
  | ErrBetweenValue nat
  | ErrEmptyColumn nat
  | ErrNegativeLimit
  | ErrNegativeOffset
  | ErrInvalidQuery error
  | ErrAdapter string
  | ErrFailedAfterRetries int "error option"
  | ErrSyncOnClose error

section \<open>Query engine\<close>

record Condition =
  Column :: string
  Operator :: string
  Value :: any_value

record Query =
  Conditions :: "Condition list"
  Limit :: int
  Offset :: int

fun isNumeric :: "any_value \<Rightarrow> bool" where
  "isNumeric (VInt _) = True"
| "isNumeric (VInt64 _) = True"
| "isNumeric (VIntN _ _) = True"
| "isNumeric (VFloat32 _) = True"
| "isNumeric (VFloat64 _) = True"
| "isNumeric _ = False"

fun toFloat64 :: "any_value \<Rightarrow> float64" where
  "toFloat64 (VInt val) = int_to_f64 val"
| "toFloat64 (VInt64 val) = int_to_f64 val"
| "toFloat64 (VIntN _ val) = int_to_f64 val"
| "toFloat64 (VFloat32 val) = val"
| "toFloat64 (VFloat64 val) = val"
| "toFloat64 _ = Fin 0"

text \<open>\<open>fmt\<close> is \<^verbatim>\<open>fmt.Sprintf("%v", x)\<close>, as in \<open>GetAsStrings\<close>.\<close>

definition compareEqual :: "(any_value \<Rightarrow> string) \<Rightarrow> any_value \<Rightarrow> any_value \<Rightarrow> bool" where
  "compareEqual fmt a b =
     (if a = VNil \<and> b = VNil then True
      else if a = VNil \<or> b = VNil then False
      else if isNumeric a \<and> isNumeric b then f64_eq (toFloat64 a) (toFloat64 b)
      else fmt a = fmt b)"

definition compareGreater :: "any_value \<Rightarrow> any_value \<Rightarrow> bool" where
  "compareGreater a b =
     (if \<not> isNumeric a \<or> \<not> isNumeric b then False
      else f64_lt (toFloat64 b) (toFloat64 a))"

definition compareGreaterEqual :: "any_value \<Rightarrow> any_value \<Rightarrow> bool" where
  "compareGreaterEqual a b =
     (if \<not> isNumeric a \<or> \<not> isNumeric b then False
      else f64_le (toFloat64 b) (toFloat64 a))"

definition compareLess :: "any_value \<Rightarrow> any_value \<Rightarrow> bool" where
  "compareLess a b =
     (if \<not> isNumeric a \<or> \<not> isNumeric b then False
      else f64_lt (toFloat64 a) (toFloat64 b))"

definition compareLessEqual :: "any_value \<Rightarrow> any_value \<Rightarrow> bool" where
  "compareLessEqual a b =
     (if \<not> isNumeric a \<or> \<not> isNumeric b then False
      else f64_le (toFloat64 a) (toFloat64 b))"

definition compareIn :: "(any_value \<Rightarrow> string) \<Rightarrow> any_value \<Rightarrow> any_value \<Rightarrow> bool" where
  "compareIn fmt a b =
     (case b of
        VList items \<Rightarrow> list_ex (\<lambda>item. compareEqual fmt a item) items
      | _ \<Rightarrow> False)"

definition between_bounds :: "any_value \<Rightarrow> any_value \<Rightarrow> any_value \<Rightarrow> bool" where
  "between_bounds a lo hi =
     (if \<not> isNumeric a \<or> \<not> isNumeric lo \<or> \<not> isNumeric hi then False
      else f64_le (toFloat64 lo) (toFloat64 a) \<and> f64_le (toFloat64 a) (toFloat64 hi))"

definition compareBetween :: "any_value \<Rightarrow> any_value \<Rightarrow> bool" where
  "compareBetween a b =
     (case b of
        VArray2 lo hi \<Rightarrow> between_bounds a lo hi
      | VList v \<Rightarrow> (if length v \<noteq> 2 then False else between_bounds a (v ! 0) (v ! 1))
      | _ \<Rightarrow> False)"

definition evalCondition :: "(any_value \<Rightarrow> string) \<Rightarrow> Record \<Rightarrow> Condition \<Rightarrow> bool" where
  "evalCondition fmt record condition =
     (let val = (case map_of (Values record) (Column condition) of
                   None \<Rightarrow> VNil
                 | Some v \<Rightarrow> v)
      in if Operator condition = ''=='' then compareEqual fmt val (Value condition)
         else if Operator condition = ''!='' then \<not> compareEqual fmt val (Value condition)
         else if Operator condition = ''>'' then compareGreater val (Value condition)
         else if Operator condition = ''>='' then compareGreaterEqual val (Value condition)
         else if Operator condition = ''<'' then compareLess val (Value condition)
         else if Operator condition = ''<='' then compareLessEqual val (Value condition)
         else if Operator condition = ''in'' then compareIn fmt val (Value condition)
         else if Operator condition = ''between'' then compareBetween val (Value condition)
         else False)"

definition MatchesQuery :: "(any_value \<Rightarrow> string) \<Rightarrow> Record \<Rightarrow> Query \<Rightarrow> bool" where
  "MatchesQuery fmt r query = list_all (\<lambda>condition. evalCondition fmt r condition) (Conditions query)"

definition apply_limit :: "Query \<Rightarrow> Record list \<Rightarrow> Record list" where
  "apply_limit query results =
     (if Limit query > 0 \<and> Limit query < int (length results)
      then take (nat (Limit query)) results
      else results)"

definition ApplyQuery :: "(any_value \<Rightarrow> string) \<Rightarrow> Record list \<Rightarrow> Query \<Rightarrow> Record list" where
  "ApplyQuery fmt records query =
     (let results = filter (\<lambda>record. MatchesQuery fmt record query) records
      in if Offset query > 0 \<and> Offset query < int (length results)
           then apply_limit query (drop (nat (Offset query)) results)
         else if Offset query \<ge> int (length results)
           then []
         else apply_limit query results)"

definition validOps :: "string list" where
  "validOps = [''=='', ''!='', ''>'', ''>='', ''<'', ''<='', ''in'', ''between'']"

definition validate_condition :: "nat \<Rightarrow> Condition \<Rightarrow> error option" where
  "validate_condition i cond =
     (if Operator cond \<notin> set validOps then Some (ErrInvalidOperator (Operator cond) i)
      else if Operator cond = ''in'' \<and> (case Value cond of VList _ \<Rightarrow> False | _ \<Rightarrow> True)
        then Some (ErrInValue i)
      else if Operator cond = ''between'' \<and>
              (case Value cond of VArray2 _ _ \<Rightarrow> False | VList v \<Rightarrow> length v \<noteq> 2 | _ \<Rightarrow> True)
        then Some (ErrBetweenValue i)
      else if Column cond = [] then Some (ErrEmptyColumn i)
      else None)"

fun validate_conditions :: "nat \<Rightarrow> Condition list \<Rightarrow> error option" where
  "validate_conditions i [] = None"
| "validate_conditions i (cond # conds) =
     (case validate_condition i cond of
        Some e \<Rightarrow> Some e
      | None \<Rightarrow> validate_conditions (Suc i) conds)"

definition ValidateQuery :: "Query \<Rightarrow> error option" where
  "ValidateQuery query =
     (case validate_conditions 0 (Conditions query) of
        Some e \<Rightarrow> Some e
      | None \<Rightarrow>
          if Limit query < 0 then Some ErrNegativeLimit
          else if Offset query < 0 then Some ErrNegativeOffset
          else None)"

section \<open>Cache\<close>

record Cache =
  data :: "(int \<times> Record) list"
  dirty :: "(int \<times> bool) list"
  schema :: "string list"

definition NewCache :: Cache where
  "NewCache = \<lparr>data = [], dirty = [], schema = []\<rparr>"

definition copyRecord :: "Record \<Rightarrow> Record" where
  "copyRecord record =
     \<lparr>Key = Key record,
      Values = foldl (\<lambda>m (k, v). AList.update k v m) [] (Values record)\<rparr>"

definition updateSchema :: "Cache \<Rightarrow> Record \<Rightarrow> Cache" where
  "updateSchema c record =
     c\<lparr>schema := foldl (\<lambda>s col. if col \<in> set (schema c) then s else s @ [col])
                      (schema c) (map fst (Values record))\<rparr>"

definition Cache_Get :: "Cache \<Rightarrow> int \<Rightarrow> error + Record" where
  "Cache_Get c key =
     (case map_of (data c) key of
        None \<Rightarrow> Inl ErrKeyNotFound
      | Some record \<Rightarrow> Inr (copyRecord record))"

text \<open>
  The mutating operations return \<open>Inl\<close> the error, the cache being left as it was, or
  \<open>Inr\<close> the cache after the operation. The records they are given are values here:
  the pointers of the source are taken to be non-nil.
\<close>

definition Cache_Set :: "Cache \<Rightarrow> int \<Rightarrow> Record \<Rightarrow> error + Cache" where
  "Cache_Set c key record0 =
     (let record = record0\<lparr>Key := key\<rparr>;
          c1 = c\<lparr>data := AList.update key (copyRecord record) (data c)\<rparr>;
          c2 = c1\<lparr>dirty := AList.update key True (dirty c1)\<rparr>
      in Inr (updateSchema c2 record))"

definition Cache_Append :: "Cache \<Rightarrow> Record \<Rightarrow> error + Cache" where
  "Cache_Append c record =
     (if map_of (data c) (Key record) \<noteq> None then Inl ErrDuplicateKey
      else
        let c1 = c\<lparr>data := AList.update (Key record) (copyRecord record) (data c)\<rparr>;
            c2 = c1\<lparr>dirty := AList.update (Key record) True (dirty c1)\<rparr>
        in Inr (updateSchema c2 record))"

definition Cache_Update :: "Cache \<Rightarrow> int \<Rightarrow> (string \<times> any_value) list \<Rightarrow> error + Cache" where
  "Cache_Update c key updates =
     (case map_of (data c) key of
        None \<Rightarrow> Inl ErrKeyNotFound
      | Some record \<Rightarrow>
          let copied = copyRecord record;
              updatedRecord = copied\<lparr>Values :=
                foldl (\<lambda>m (k, v). if v = VNil then AList.delete k m else AList.update k v m)
                      (Values copied) updates\<rparr>;
              c1 = c\<lparr>data := AList.update key updatedRecord (data c)\<rparr>;
              c2 = c1\<lparr>dirty := AList.update key True (dirty c1)\<rparr>
          in Inr (updateSchema c2 updatedRecord))"

definition Cache_Delete :: "Cache \<Rightarrow> int \<Rightarrow> error + Cache" where
  "Cache_Delete c key =
     (if map_of (data c) key = None then Inl ErrKeyNotFound
      else Inr (c\<lparr>data := AList.delete key (data c), dirty := AList.delete key (dirty c)\<rparr>))"

text \<open>
  \<^verbatim>\<open>Query\<close> collects the records in the order \<^verbatim>\<open>range c.data\<close> visits them and does
  not sort them.
\<close>

definition Cache_Query :: "(any_value \<Rightarrow> string) \<Rightarrow> Cache \<Rightarrow> Query \<Rightarrow> error + Record list" where
  "Cache_Query fmt c query =
     (case ValidateQuery query of
        Some e \<Rightarrow> Inl (ErrInvalidQuery e)
      | None \<Rightarrow> Inr (ApplyQuery fmt (map (\<lambda>(k, record). copyRecord record) (data c)) query))"

text \<open>
  \<^verbatim>\<open>GetAllRecords\<close> sorts by \<^verbatim>\<open>Key\<close> (\<^verbatim>\<open>sort.Slice\<close>, which is not stable; the keys
  of the records of a cache are distinct).
\<close>

definition GetAllRecords :: "Cache \<Rightarrow> Record list" where
  "GetAllRecords c = sort_key Key (map (\<lambda>(k, record). copyRecord record) (data c))"

definition GetDirtyKeys :: "Cache \<Rightarrow> int list" where
  "GetDirtyKeys c = sort (map fst (filter (\<lambda>(key, isDirty). isDirty) (dirty c)))"

definition ClearDirty :: "Cache \<Rightarrow> Cache" where
  "ClearDirty c = c\<lparr>dirty := []\<rparr>"

definition GetSchema :: "Cache \<Rightarrow> string list" where
  "GetSchema c = schema c"

definition Load :: "Cache \<Rightarrow> Record list \<Rightarrow> string list \<Rightarrow> Cache" where
  "Load c records sch =
     c\<lparr>data := foldl (\<lambda>m record. AList.update (Key record) (copyRecord record) m) [] records,
       dirty := [],
       schema := sch\<rparr>"

text \<open>Sequences of cache operations, from a new cache. A failing operation changes nothing.\<close>

datatype cache_op =
    OpSet int Record
  | OpAppend Record
  | OpUpdate int "(string \<times> any_value) list"
  | OpDelete int
  | OpLoad "Record list" "string list"
  | OpClearDirty

definition keep_on_error :: "Cache \<Rightarrow> error + Cache \<Rightarrow> Cache" where
  "keep_on_error c res = (case res of Inl e \<Rightarrow> c | Inr c' \<Rightarrow> c')"

fun apply_op :: "Cache \<Rightarrow> cache_op \<Rightarrow> Cache" where
  "apply_op c (OpSet key record) = keep_on_error c (Cache_Set c key record)"
| "apply_op c (OpAppend record) = keep_on_error c (Cache_Append c record)"
| "apply_op c (OpUpdate key updates) = keep_on_error c (Cache_Update c key updates)"
| "apply_op c (OpDelete key) = keep_on_error c (Cache_Delete c key)"
| "apply_op c (OpLoad records sch) = Load c records sch"
| "apply_op c OpClearDirty = ClearDirty c"

definition run_ops :: "cache_op list \<Rightarrow> Cache" where
  "run_ops ops = foldl apply_op NewCache ops"

section \<open>Client\<close>

record Config =
  SyncInterval :: int
  MaxRetries :: int
  RetryInterval :: int

text \<open>
  \<^verbatim>\<open>adapter.go\<close> holds two declarations of the \<^verbatim>\<open>Adapter\<close> interface. The first
  declares the strategies below and \<^verbatim>\<open>Save(ctx, records, schema, strategy)\<close>; the
  second declares no strategy and \<^verbatim>\<open>Save(ctx, records, schema)\<close>. The client's one call
  of \<^verbatim>\<open>Save\<close>, in \<^verbatim>\<open>saveToAdapter\<close>, has three arguments: the client is written against
  the second.
\<close>

datatype SyncStrategy = SyncStrategyGapPreserving | SyncStrategyCompacting

text \<open>
  The arguments of one call of \<^verbatim>\<open>Save\<close>: the records, the schema, and the strategy
  argument when the call has one. The call \<^verbatim>\<open>c.adaptor.Save(ctx, records, schema)\<close> of
  the client has none.
\<close>

record save_call =
  sc_records :: "Record list"
  sc_schema :: "string list"
  sc_strategy :: "SyncStrategy option"

text \<open>
  The adapter is outside the package. \<open>adaptor cl n\<close> is the result of the \<open>n\<close>-th call
  of \<^verbatim>\<open>Save\<close> made through the client (counting from 0): \<open>None\<close> for a nil error.
  \<open>adaptor_calls\<close> records the calls made so far, \<open>syncManager\<close> whether the periodic
  scheduler is running.
\<close>

record Client =
  config :: Config
  cache :: Cache
  adaptor :: "nat \<Rightarrow> error option"
  adaptor_calls :: "save_call list"
  syncManager :: bool
  closed :: bool

text \<open>
  \<^verbatim>\<open>New\<close>: the default configuration when none is given (durations in nanoseconds),
  the defaults for non-positive fields, a new cache, and the scheduler started when the
  interval is positive.
\<close>

definition New :: "(nat \<Rightarrow> error option) \<Rightarrow> Config option \<Rightarrow> Client" where
  "New adapter cfg =
     (let config0 = (case cfg of
                       None \<Rightarrow> \<lparr>SyncInterval = 30 * 1000000000, MaxRetries = 3,
                                 RetryInterval = 1000000000\<rparr>
                     | Some c \<Rightarrow> c);
          config1 = (if MaxRetries config0 \<le> 0 then config0\<lparr>MaxRetries := 3\<rparr> else config0);
          config2 = (if RetryInterval config1 \<le> 0 then config1\<lparr>RetryInterval := 1000000000\<rparr>
                     else config1)
      in \<lparr>config = config2, cache = NewCache, adaptor = adapter, adaptor_calls = [],
          syncManager = (SyncInterval config2 > 0), closed = False\<rparr>)"

text \<open>
  The retry loop of \<^verbatim>\<open>saveToAdapter\<close>, from the value \<open>i\<close> of its counter and the
  last error \<open>err\<close>. \<^verbatim>\<open>time.Sleep\<close> changes no state. The result is \<open>None\<close> when the
  loop does not end.
\<close>

partial_function (option) save_loop ::
  "Client \<Rightarrow> Record list \<Rightarrow> string list \<Rightarrow> error option \<Rightarrow> int \<Rightarrow> (error option \<times> Client) option" where
  "save_loop cl records sch err i =
     (if i \<le> MaxRetries (config cl) then
        (let err' = adaptor cl (length (adaptor_calls cl));
             cl' = cl\<lparr>adaptor_calls := adaptor_calls cl @ [\<lparr>sc_records = records, sc_schema = sch, sc_strategy = None\<rparr>]\<rparr>
         in case err' of
              None \<Rightarrow> Some (None, cl'\<lparr>cache := ClearDirty (cache cl')\<rparr>)
            | Some e \<Rightarrow> save_loop cl' records sch (Some e) (wrap64 (i + 1)))
      else Some (Some (ErrFailedAfterRetries (MaxRetries (config cl)) err), cl))"

definition saveToAdapter :: "Client \<Rightarrow> (error option \<times> Client) option" where
  "saveToAdapter cl =
     (let dirtyKeys = GetDirtyKeys (cache cl)
      in if length dirtyKeys = 0 then Some (None, cl)
         else save_loop cl (GetAllRecords (cache cl)) (GetSchema (cache cl)) None 0)"

definition on_cache :: "Client \<Rightarrow> error + Cache \<Rightarrow> error option \<times> Client" where
  "on_cache cl res = (case res of Inl e \<Rightarrow> (Some e, cl) | Inr c \<Rightarrow> (None, cl\<lparr>cache := c\<rparr>))"

definition Client_Set :: "Client \<Rightarrow> int \<Rightarrow> Record \<Rightarrow> error option \<times> Client" where
  "Client_Set cl key record =
     (if closed cl then (Some ErrClientClosed, cl)
      else on_cache cl (Cache_Set (cache cl) key record))"

definition next_key :: "Cache \<Rightarrow> int" where
  "next_key c =
     (let maxKey = foldl (\<lambda>maxKey r. if Key r > maxKey then Key r else maxKey) 1 (GetAllRecords c)
      in wrap64 (maxKey + 1))"

definition Client_Append :: "Client \<Rightarrow> Record \<Rightarrow> error option \<times> Client" where
  "Client_Append cl record =
     (if closed cl then (Some ErrClientClosed, cl)
      else on_cache cl (Cache_Append (cache cl) (record\<lparr>Key := next_key (cache cl)\<rparr>)))"

definition Client_Update :: "Client \<Rightarrow> int \<Rightarrow> (string \<times> any_value) list \<Rightarrow> error option \<times> Client" where
  "Client_Update cl key updates =
     (if closed cl then (Some ErrClientClosed, cl)
      else on_cache cl (Cache_Update (cache cl) key updates))"

definition Client_Delete :: "Client \<Rightarrow> int \<Rightarrow> error option \<times> Client" where
  "Client_Delete cl key =
     (if closed cl then (Some ErrClientClosed, cl)
      else on_cache cl (Cache_Delete (cache cl) key))"




section \<open>A scheduled save beside calls of the client\<close>

text \<open>
  \<^verbatim>\<open>performSync\<close> runs \<^verbatim>\<open>saveToAdapter\<close> on the scheduler's goroutine without the
  client's mutex (only \<^verbatim>\<open>Sync\<close> holds it around the save), so \<^verbatim>\<open>Set\<close>, \<^verbatim>\<open>Append\<close>,
  \<^verbatim>\<open>Update\<close> and \<^verbatim>\<open>Delete\<close> of the client may run between any two steps of the save.
  Each method of the cache holds the cache's lock for its whole body and is one atomic
  step. The steps of \<^verbatim>\<open>saveToAdapter\<close>, in program order:
  \<^item> \<open>SvStart\<close>: \<^verbatim>\<open>GetDirtyKeys\<close>, and the return when there is none;
  \<^item> \<open>SvGotDirty\<close>: \<^verbatim>\<open>GetAllRecords\<close>;
  \<^item> \<open>SvGotRecords\<close>: \<^verbatim>\<open>GetSchema\<close>;
  \<^item> \<open>SvLoop\<close>: the test of the counter and the call of \<^verbatim>\<open>Save\<close>;
  \<^item> \<open>SvSaved\<close>: \<^verbatim>\<open>ClearDirty\<close> after a nil error;
  \<^item> \<open>SvDone\<close>: returned, with the error.
\<close>

datatype saver =
    SvStart
  | SvGotDirty "int list"
  | SvGotRecords "Record list"
  | SvLoop "Record list" "string list" "error option" int
  | SvSaved
  | SvDone "error option"

fun saver_step :: "Client \<times> saver \<Rightarrow> Client \<times> saver" where
  "saver_step (cl, SvStart) =
     (let dirtyKeys = GetDirtyKeys (cache cl)
      in if length dirtyKeys = 0 then (cl, SvDone None) else (cl, SvGotDirty dirtyKeys))"
| "saver_step (cl, SvGotDirty dirtyKeys) = (cl, SvGotRecords (GetAllRecords (cache cl)))"
| "saver_step (cl, SvGotRecords records) = (cl, SvLoop records (GetSchema (cache cl)) None 0)"
| "saver_step (cl, SvLoop records sch err i) =
     (if i \<le> MaxRetries (config cl) then
        (let err' = adaptor cl (length (adaptor_calls cl));
             cl' = cl\<lparr>adaptor_calls := adaptor_calls cl @ [\<lparr>sc_records = records, sc_schema = sch, sc_strategy = None\<rparr>]\<rparr>
         in case err' of
              None \<Rightarrow> (cl', SvSaved)
            | Some e \<Rightarrow> (cl', SvLoop records sch (Some e) (wrap64 (i + 1))))
      else (cl, SvDone (Some (ErrFailedAfterRetries (MaxRetries (config cl)) err))))"
| "saver_step (cl, SvSaved) = (cl\<lparr>cache := ClearDirty (cache cl)\<rparr>, SvDone None)"
| "saver_step (cl, SvDone res) = (cl, SvDone res)"

datatype client_call =
    CallSet int Record
  | CallAppend Record
  | CallUpdate int "(string \<times> any_value) list"
  | CallDelete int

fun do_call :: "Client \<Rightarrow> client_call \<Rightarrow> Client" where
  "do_call cl (CallSet key record) = snd (Client_Set cl key record)"
| "do_call cl (CallAppend record) = snd (Client_Append cl record)"
| "do_call cl (CallUpdate key updates) = snd (Client_Update cl key updates)"
| "do_call cl (CallDelete key) = snd (Client_Delete cl key)"

text \<open>An interleaving: a list of events, each a step of the save or a call of the client.\<close>

datatype event = SaverStep | Caller client_call

fun exec_event :: "Client \<times> saver \<Rightarrow> event \<Rightarrow> Client \<times> saver" where
  "exec_event (cl, sv) SaverStep = saver_step (cl, sv)"
| "exec_event (cl, sv) (Caller call) = (do_call cl call, sv)"

definition run_events :: "Client \<times> saver \<Rightarrow> event list \<Rightarrow> Client \<times> saver" where
  "run_events st events = foldl exec_event st events"

section \<open>Predicates and sample inputs of the properties\<close>

text \<open>
  An instance of the formatting function for closed examples: what \<^verbatim>\<open>%v\<close> prints for
  nil, booleans, strings and integers. The examples below format none of the other
  values, for which a placeholder stands.
\<close>

fun show_nat :: "nat \<Rightarrow> string" where
  "show_nat n =
     (if n < 10 then [char_of (48 + n)]
      else show_nat (n div 10) @ [char_of (48 + n mod 10)])"

declare show_nat.simps [simp del]

definition show_int :: "int \<Rightarrow> string" where
  "show_int n = (if n < 0 then CHR ''-'' # show_nat (nat (- n)) else show_nat (nat n))"

fun fmt_basic :: "any_value \<Rightarrow> string" where
  "fmt_basic VNil = ''<nil>''"
| "fmt_basic (VBool b) = (if b then ''true'' else ''false'')"
| "fmt_basic (VString s) = s"
| "fmt_basic (VInt n) = show_int n"
| "fmt_basic (VInt64 n) = show_int n"
| "fmt_basic (VIntN _ n) = show_int n"
| "fmt_basic _ = ''?''"

definition age_record :: "int \<Rightarrow> int \<Rightarrow> Record" where
  "age_record key age = \<lparr>Key = key, Values = [(''age'', VInt age)]\<rparr>"

text \<open>Sample adapters: one whose saves succeed, one whose first \<open>k\<close> saves fail.\<close>

definition adaptor_ok :: "nat \<Rightarrow> error option" where
  "adaptor_ok n = None"

definition adaptor_failing :: "nat \<Rightarrow> nat \<Rightarrow> error option" where
  "adaptor_failing k n = (if n < k then Some (ErrAdapter ''unavailable'') else None)"

text \<open>A new client with the default configuration, around a given cache.\<close>

definition client_of :: "(nat \<Rightarrow> error option) \<Rightarrow> Cache \<Rightarrow> Client" where
  "client_of adapter c = (New adapter None)\<lparr>cache := c\<rparr>"

text \<open>A cache with one record, which is dirty, and the arguments of a save of it.\<close>

definition dirty_cache :: Cache where
  "dirty_cache = run_ops [OpSet 2 (age_record 2 15)]"

definition dirty_cache_call :: save_call where
  "dirty_cache_call = \<lparr>sc_records = [age_record 2 15], sc_schema = [''age''], sc_strategy = None\<rparr>"

text \<open>Every key of the data map is at least 2 (row 1 holds the column names).\<close>

definition keys_from_2 :: "Cache \<Rightarrow> bool" where
  "keys_from_2 c = list_all (\<lambda>(key, record). 2 \<le> key) (data c)"

text \<open>The keys an operation brings into the cache are at least 2.\<close>

fun op_keys_from_2 :: "cache_op \<Rightarrow> bool" where
  "op_keys_from_2 (OpSet key record) = (2 \<le> key)"
| "op_keys_from_2 (OpAppend record) = (2 \<le> Key record)"
| "op_keys_from_2 (OpLoad records sch) = list_all (\<lambda>record. 2 \<le> Key record) records"
| "op_keys_from_2 _ = True"

text \<open>Every key of the dirty map is a key of the data map.\<close>

definition dirty_in_data :: "Cache \<Rightarrow> bool" where
  "dirty_in_data c = (fst ` set (dirty c) \<subseteq> fst ` set (data c))"

text \<open>Every record of the data map carries the key it is stored under.\<close>

definition keys_agree :: "Cache \<Rightarrow> bool" where
  "keys_agree c = list_all (\<lambda>(key, record). Key record = key) (data c)"

definition age_query :: Query where
  "age_query =
     \<lparr>Conditions = [\<lparr>Column = ''age'', Operator = ''>='', Value = VInt 20\<rparr>,
                    \<lparr>Column = ''age'', Operator = ''<='', Value = VInt 30\<rparr>],
      Limit = 0, Offset = 0\<rparr>"

text \<open>
  Five cache entries with the ages 15, 20, 25, 30, 35 under given keys, and a record's
  having a given age.
\<close>

definition age_entries :: "int \<Rightarrow> int \<Rightarrow> int \<Rightarrow> int \<Rightarrow> int \<Rightarrow> (int \<times> Record) list" where
  "age_entries k1 k2 k3 k4 k5 =
     [(k1, age_record k1 15), (k2, age_record k2 20), (k3, age_record k3 25),
      (k4, age_record k4 30), (k5, age_record k5 35)]"

definition has_age :: "Record \<Rightarrow> int \<Rightarrow> bool" where
  "has_age r a = (map_of (Values r) ''age'' = Some (VInt a))"

section \<open>Properties\<close>

subsection \<open>Record accessors\<close>

text \<open>What \<^verbatim>\<open>GetAsBool\<close> returns for a stored value, type by type.\<close>

lemma GetAsBool_stored:
  "map_of (Values r) col = Some v \<Longrightarrow>
   GetAsBool r col d =
     (case v of
        VBool b \<Rightarrow> b
      | VString s \<Rightarrow> s = ''true'' \<or> s = ''1''
      | VInt n \<Rightarrow> n \<noteq> 0
      | VInt64 n \<Rightarrow> True
      | VFloat64 f \<Rightarrow> \<not> f64_eq f (Fin 0)
      | _ \<Rightarrow> d)"
  by (simp add: GetAsBool_def split: any_value.split)

lemma GetAsBool_absent: "map_of (Values r) col = None \<Longrightarrow> GetAsBool r col d = d"
  by (simp add: GetAsBool_def)

text \<open>
  C6. \<^verbatim>\<open>GetAsBool\<close> of a stored \<^verbatim>\<open>int64\<close> zero: the claim says false (a numeric value
  gives true exactly when it is nonzero); the code returns true, as it does for every
  stored \<^verbatim>\<open>int64\<close>.
\<close>

theorem C6_GetAsBool_int64_zero:
  "GetAsBool \<lparr>Key = 2, Values = [(''active'', VInt64 0)]\<rparr> ''active'' False = True"
  by (simp add: GetAsBool_def)

lemma split_no_sep: "c \<notin> set x \<Longrightarrow> strings_Split x c = [x]"
  by (induction x) auto

lemma split_append_sep: "c \<notin> set x \<Longrightarrow> strings_Split (x @ c # rest) c = x # strings_Split rest c"
  by (induction x) auto

lemma split_join:
  "xs \<noteq> [] \<Longrightarrow> \<forall>x\<in>set xs. c \<notin> set x \<Longrightarrow> strings_Split (strings_Join xs [c]) c = xs"
  by (induction xs "[c]" rule: strings_Join.induct) (auto simp: split_no_sep split_append_sep)

lemma join_empty_iff: "strings_Join xs [c] = [] \<longleftrightarrow> xs = [] \<or> xs = [[]]"
  by (cases "(xs, [c])" rule: strings_Join.cases) auto

lemma map_of_update_same: "map_of (AList.update k v al) k = Some v"
  by (simp add: update_conv')

text \<open>
  C8, as stated, at the list holding one empty string: it is stored as the empty
  string, which \<^verbatim>\<open>GetAsStrings\<close> reads as the empty list.
\<close>

theorem C8_singleton_empty_counterexample:
  "GetAsStrings fmt_basic (SetStrings \<lparr>Key = 2, Values = []\<rparr> ''tags'' [[]]) ''tags'' [] \<noteq> [[]]"
  by (simp add: GetAsStrings_def SetStrings_def)

text \<open>
  C8, amended. For every list of strings other than the list of one empty string, no
  element of which contains a comma: \<^verbatim>\<open>SetStrings\<close> stores the comma-joined string, and
  \<^verbatim>\<open>GetAsStrings\<close> on the same column returns the list, whatever the default.
\<close>

theorem C8_SetStrings_GetAsStrings:
  assumes "\<forall>x\<in>set xs. CHR '','' \<notin> set x" and "xs \<noteq> [[]]"
  shows "GetAsStrings fmt (SetStrings r col xs) col d = xs \<and>
         map_of (Values (SetStrings r col xs)) col = Some (VString (strings_Join xs '',''))"
proof (cases "xs = []")
  case True
  then show ?thesis by (simp add: GetAsStrings_def SetStrings_def map_of_update_same)
next
  case False
  with assms(2) have "strings_Join xs '','' \<noteq> []"
    using join_empty_iff[of xs "CHR '',''"] by simp
  moreover have "strings_Split (strings_Join xs '','') (CHR '','') = xs"
    using split_join[OF False assms(1)] by simp
  ultimately show ?thesis
    by (simp add: GetAsStrings_def SetStrings_def map_of_update_same)
qed

theorem C8_SetStrings_GetAsStrings_witness:
  "GetAsStrings fmt_basic (SetStrings \<lparr>Key = 2, Values = []\<rparr> ''tags'' [''a'', ''b'']) ''tags'' []
     = [''a'', ''b''] \<and>
   map_of (Values (SetStrings \<lparr>Key = 2, Values = []\<rparr> ''tags'' [''a'', ''b''])) ''tags''
     = Some (VString ''a,b'')"
  using C8_SetStrings_GetAsStrings[of "[''a'', ''b'']" fmt_basic "\<lparr>Key = 2, Values = []\<rparr>" "''tags''" "[]"]
  by simp

subsection \<open>Conditions on a missing column\<close>

lemma compareEqual_nil: "compareEqual fmt VNil b = (b = VNil)"
  by (simp add: compareEqual_def)

lemma compareIn_nil: "compareIn fmt VNil b = (\<exists>items. b = VList items \<and> VNil \<in> set items)"
  by (cases b) (auto simp: compareIn_def compareEqual_nil list_ex_iff)

lemma compareBetween_nil: "compareBetween VNil b = False"
  by (cases b) (auto simp: compareBetween_def between_bounds_def)

text \<open>
  C4, as stated, at a record without the column \<^verbatim>\<open>age\<close> and the condition
  \<^verbatim>\<open>{age, !=, 5}\<close>: the condition is true although its comparison value is not null.
\<close>

theorem C4_not_equal_counterexample:
  "evalCondition fmt_basic \<lparr>Key = 2, Values = [(''name'', VString ''John'')]\<rparr>
      \<lparr>Column = ''age'', Operator = ''!='', Value = VInt 5\<rparr>"
  by (simp add: evalCondition_def compareEqual_def)

text \<open>
  C4, amended. A condition on a column absent from the record is true exactly when it is
  \<^verbatim>\<open>==\<close> with a null comparison value, \<^verbatim>\<open>!=\<close> with a comparison value that is not
  null, or \<^verbatim>\<open>in\<close> with a list that has a null element; with an ordering operator it is
  always false.
\<close>

theorem C4_missing_column:
  assumes "map_of (Values r) (Column c) = None"
  shows "(evalCondition fmt r c \<longleftrightarrow>
            (Operator c = ''=='' \<and> Value c = VNil) \<or>
            (Operator c = ''!='' \<and> Value c \<noteq> VNil) \<or>
            (Operator c = ''in'' \<and> (\<exists>items. Value c = VList items \<and> VNil \<in> set items)))
         \<and> (Operator c \<in> {''>'', ''>='', ''<'', ''<=''} \<longrightarrow> \<not> evalCondition fmt r c)"
  using assms
  by (simp add: evalCondition_def compareEqual_nil compareIn_nil compareBetween_nil
        compareGreater_def compareGreaterEqual_def compareLess_def compareLessEqual_def)

theorem C4_missing_column_witness:
  "\<not> evalCondition fmt_basic \<lparr>Key = 2, Values = [(''name'', VString ''John'')]\<rparr>
      \<lparr>Column = ''age'', Operator = ''>='', Value = VInt 5\<rparr>
   \<and> evalCondition fmt_basic \<lparr>Key = 2, Values = [(''name'', VString ''John'')]\<rparr>
      \<lparr>Column = ''age'', Operator = ''=='', Value = VNil\<rparr>"
  using C4_missing_column[of "\<lparr>Key = 2, Values = [(''name'', VString ''John'')]\<rparr>"
          "\<lparr>Column = ''age'', Operator = ''>='', Value = VInt 5\<rparr>" fmt_basic]
        C4_missing_column[of "\<lparr>Key = 2, Values = [(''name'', VString ''John'')]\<rparr>"
          "\<lparr>Column = ''age'', Operator = ''=='', Value = VNil\<rparr>" fmt_basic]
  by simp

subsection \<open>Invariants of the cache\<close>

lemma data_updateSchema [simp]: "data (updateSchema c r) = data c"
  by (simp add: updateSchema_def)

lemma dirty_updateSchema [simp]: "dirty (updateSchema c r) = dirty c"
  by (simp add: updateSchema_def)

lemma Key_copyRecord [simp]: "Key (copyRecord r) = Key r"
  by (simp add: copyRecord_def)

lemma list_all_update:
  "list_all (\<lambda>(k, v). P k v) al \<Longrightarrow> P k v \<Longrightarrow> list_all (\<lambda>(k, v). P k v) (AList.update k v al)"
  by (induction al) auto

lemma list_all_delete: "list_all P al \<Longrightarrow> list_all P (AList.delete k al)"
  by (induction al) auto

lemma load_fold_keys:
  "list_all (\<lambda>(k, v). P k v) m \<Longrightarrow> list_all (\<lambda>r. P (Key r) (copyRecord r)) records \<Longrightarrow>
   list_all (\<lambda>(k, v). P k v) (foldl (\<lambda>m r. AList.update (Key r) (copyRecord r) m) m records)"
  by (induction records arbitrary: m) (auto simp: list_all_update)

lemma keys_delete: "fst ` set (AList.delete k al) = fst ` set al - {k}"
  by (induction al) auto

lemma run_ops_snoc: "run_ops (ops @ [op]) = apply_op (run_ops ops) op"
  by (simp add: run_ops_def)

lemma run_ops_Nil: "run_ops [] = NewCache"
  by (simp add: run_ops_def)

lemma apply_op_keys_from_2:
  assumes "keys_from_2 c" and "op_keys_from_2 op"
  shows "keys_from_2 (apply_op c op)"
proof (cases op)
  case (OpSet key rcd)
  with assms show ?thesis
    by (simp add: keys_from_2_def Cache_Set_def keep_on_error_def Let_def list_all_update)
next
  case (OpAppend rcd)
  with assms show ?thesis
    by (simp add: keys_from_2_def Cache_Append_def keep_on_error_def Let_def list_all_update)
next
  case (OpUpdate key updates)
  show ?thesis
  proof (cases "map_of (data c) key")
    case None
    with assms OpUpdate show ?thesis
      by (simp add: Cache_Update_def keep_on_error_def)
  next
    case (Some r)
    then have "(key, r) \<in> set (data c)" by (rule map_of_SomeD)
    with assms(1) have "2 \<le> key" by (auto simp: keys_from_2_def list_all_iff)
    with assms(1) Some OpUpdate show ?thesis
      by (simp add: keys_from_2_def Cache_Update_def keep_on_error_def Let_def list_all_update)
  qed
next
  case (OpDelete key)
  with assms show ?thesis
    by (simp add: keys_from_2_def Cache_Delete_def keep_on_error_def list_all_delete)
next
  case (OpLoad records sch)
  have "list_all (\<lambda>(k, v). 2 \<le> k)
          (foldl (\<lambda>m r. AList.update (Key r) (copyRecord r) m) [] records)"
    using assms(2) OpLoad by (intro load_fold_keys) simp_all
  then show ?thesis using OpLoad by (simp add: keys_from_2_def Load_def)
next
  case OpClearDirty
  with assms show ?thesis by (simp add: keys_from_2_def ClearDirty_def)
qed

lemma run_ops_keys_from_2: "list_all op_keys_from_2 ops \<Longrightarrow> keys_from_2 (run_ops ops)"
proof (induction ops rule: rev_induct)
  case Nil
  show ?case by (simp add: run_ops_Nil keys_from_2_def NewCache_def)
next
  case (snoc op ops)
  then show ?case by (simp add: run_ops_snoc apply_op_keys_from_2)
qed

text \<open>
  C7, as stated, at \<^verbatim>\<open>Set(1, record)\<close> on a new cache: the data map then holds the
  key 1.
\<close>

theorem C7_Set_key_1_counterexample:
  "\<not> keys_from_2 (apply_op NewCache (OpSet 1 \<lparr>Key = 1, Values = [(''name'', VString ''John'')]\<rparr>))"
  by (simp add: keys_from_2_def Cache_Set_def NewCache_def keep_on_error_def Let_def)

text \<open>
  C7, amended. A cache operation keeps every key of the data map at least 2 provided the
  keys it is given are: the key argument of \<^verbatim>\<open>Set\<close>, the \<^verbatim>\<open>Key\<close> of the record given to
  \<^verbatim>\<open>Append\<close> and of the records given to \<^verbatim>\<open>Load\<close>. Hence the invariant holds after every
  sequence of such operations on a new cache.
\<close>

theorem C7_keys_from_2_preserved:
  "(keys_from_2 c \<and> op_keys_from_2 op \<longrightarrow> keys_from_2 (apply_op c op))
   \<and> (list_all op_keys_from_2 ops \<longrightarrow> keys_from_2 (run_ops ops))"
  by (simp add: apply_op_keys_from_2 run_ops_keys_from_2)

theorem C7_keys_from_2_preserved_witness:
  "keys_from_2 NewCache \<and> op_keys_from_2 (OpSet 2 (age_record 2 15))
   \<and> keys_from_2 (apply_op NewCache (OpSet 2 (age_record 2 15)))
   \<and> list_all op_keys_from_2 [OpSet 2 (age_record 2 15), OpAppend (age_record 3 20), OpDelete 2]
   \<and> keys_from_2 (run_ops [OpSet 2 (age_record 2 15), OpAppend (age_record 3 20), OpDelete 2])"
  using C7_keys_from_2_preserved[of NewCache "OpSet 2 (age_record 2 15)"
          "[OpSet 2 (age_record 2 15), OpAppend (age_record 3 20), OpDelete 2]"]
  by (simp add: keys_from_2_def NewCache_def age_record_def)

lemma apply_op_dirty_in_data:
  assumes "dirty_in_data c"
  shows "dirty_in_data (apply_op c op)"
proof (cases op)
  case (OpSet key rcd)
  with assms show ?thesis
    by (auto simp: dirty_in_data_def Cache_Set_def keep_on_error_def Let_def dom_update)
next
  case (OpAppend rcd)
  with assms show ?thesis
    by (auto simp: dirty_in_data_def Cache_Append_def keep_on_error_def Let_def dom_update)
next
  case (OpUpdate key updates)
  with assms show ?thesis
    by (auto simp: dirty_in_data_def Cache_Update_def keep_on_error_def Let_def dom_update
          split: option.splits)
next
  case (OpDelete key)
  with assms show ?thesis
    by (auto simp: dirty_in_data_def Cache_Delete_def keep_on_error_def keys_delete)
next
  case (OpLoad records sch)
  then show ?thesis by (simp add: dirty_in_data_def Load_def)
next
  case OpClearDirty
  then show ?thesis by (simp add: dirty_in_data_def ClearDirty_def)
qed

lemma run_ops_dirty_in_data: "dirty_in_data (run_ops ops)"
proof (induction ops rule: rev_induct)
  case Nil
  show ?case by (simp add: run_ops_Nil dirty_in_data_def NewCache_def)
next
  case (snoc op ops)
  then show ?case by (simp add: run_ops_snoc apply_op_dirty_in_data)
qed

lemma set_GetDirtyKeys: "set (GetDirtyKeys c) \<subseteq> fst ` set (dirty c)"
  by (auto simp: GetDirtyKeys_def)

text \<open>
  C10. After every sequence of \<^verbatim>\<open>Set\<close>, \<^verbatim>\<open>Append\<close>, \<^verbatim>\<open>Update\<close>, \<^verbatim>\<open>Delete\<close>,
  \<^verbatim>\<open>Load\<close> and \<^verbatim>\<open>ClearDirty\<close> on a new cache, every key returned by
  \<^verbatim>\<open>GetDirtyKeys\<close> is a key of the data map.
\<close>

theorem C10_dirty_keys_in_data:
  "set (GetDirtyKeys (run_ops ops)) \<subseteq> dom (map_of (data (run_ops ops)))"
  using run_ops_dirty_in_data[of ops] set_GetDirtyKeys[of "run_ops ops"]
  by (auto simp: dirty_in_data_def dom_map_of_conv_image_fst)

lemma Delete_removes_dirty:
  "Cache_Delete c key = Inr c' \<Longrightarrow> key \<notin> fst ` set (data c') \<and> key \<notin> fst ` set (dirty c')"
  using delete_notin_dom[of key "data c"] delete_notin_dom[of key "dirty c"]
  by (auto simp: Cache_Delete_def split: if_splits)

subsection \<open>Key assignment of Append\<close>

lemma apply_op_keys_agree:
  assumes "keys_agree c"
  shows "keys_agree (apply_op c op)"
proof (cases op)
  case (OpSet key rcd)
  with assms show ?thesis
    by (simp add: keys_agree_def Cache_Set_def keep_on_error_def Let_def list_all_update)
next
  case (OpAppend rcd)
  with assms show ?thesis
    by (simp add: keys_agree_def Cache_Append_def keep_on_error_def Let_def list_all_update)
next
  case (OpUpdate key updates)
  show ?thesis
  proof (cases "map_of (data c) key")
    case None
    with assms OpUpdate show ?thesis
      by (simp add: Cache_Update_def keep_on_error_def)
  next
    case (Some r)
    then have "(key, r) \<in> set (data c)" by (rule map_of_SomeD)
    with assms have "Key r = key" by (auto simp: keys_agree_def list_all_iff)
    with assms Some OpUpdate show ?thesis
      by (simp add: keys_agree_def Cache_Update_def keep_on_error_def Let_def list_all_update)
  qed
next
  case (OpDelete key)
  with assms show ?thesis
    by (simp add: keys_agree_def Cache_Delete_def keep_on_error_def list_all_delete)
next
  case (OpLoad records sch)
  have "list_all (\<lambda>(k, v). Key v = k)
          (foldl (\<lambda>m r. AList.update (Key r) (copyRecord r) m) [] records)"
    by (intro load_fold_keys) (simp_all add: list_all_iff)
  then show ?thesis using OpLoad by (simp add: keys_agree_def Load_def)
next
  case OpClearDirty
  with assms show ?thesis by (simp add: keys_agree_def ClearDirty_def)
qed

text \<open>The records of every cache reached from a new one carry their keys.\<close>

lemma run_ops_keys_agree: "keys_agree (run_ops ops)"
proof (induction ops rule: rev_induct)
  case Nil
  show ?case by (simp add: run_ops_Nil keys_agree_def NewCache_def)
next
  case (snoc op ops)
  then show ?case by (simp add: run_ops_snoc apply_op_keys_agree)
qed

lemma foldl_maxKey:
  "foldl (\<lambda>maxKey r. if Key r > maxKey then Key r else maxKey) a rs = Max (insert a (Key ` set rs))"
proof (induction rs arbitrary: a)
  case Nil
  then show ?case by simp
next
  case (Cons r rs)
  have "Max (insert (max a (Key r)) (Key ` set rs)) = Max (insert a (insert (Key r) (Key ` set rs)))"
    by (cases "Key ` set rs = {}") (simp_all add: max.assoc)
  moreover have "(if Key r > a then Key r else a) = max a (Key r)" by (simp add: max_def)
  ultimately show ?case using Cons.IH[of "max a (Key r)"] by simp
qed

lemma Keys_GetAllRecords:
  assumes "keys_agree c"
  shows "Key ` set (GetAllRecords c) = fst ` set (data c)"
proof -
  have "Key (copyRecord (snd p)) = fst p" if "p \<in> set (data c)" for p
    using assms that by (auto simp: keys_agree_def list_all_iff)
  then have "map Key (map (\<lambda>(k, r). copyRecord r) (data c)) = map fst (data c)"
    by (auto simp: case_prod_unfold)
  then have "Key ` set (map (\<lambda>(k, r). copyRecord r) (data c)) = fst ` set (data c)"
    by (metis set_map)
  then show ?thesis by (simp add: GetAllRecords_def)
qed

lemma wrap64_id: "- (2 ^ 63) \<le> x \<Longrightarrow> x < 2 ^ 63 \<Longrightarrow> wrap64 x = x"
  by (simp add: wrap64_def)

lemma next_key_eq:
  assumes "keys_agree c" and "\<forall>k\<in>fst ` set (data c). k < INT_MAX"
  shows "next_key c = Max (insert 1 (fst ` set (data c))) + 1"
proof -
  let ?m = "Max (insert 1 (fst ` set (data c)))"
  have "?m \<in> insert 1 (fst ` set (data c))" by (rule Max_in) simp_all
  with assms(2) have hi: "?m < 2 ^ 63 - 1" by (auto simp: INT_MAX_def)
  have lo: "1 \<le> ?m" by (rule Max_ge) simp_all
  have "wrap64 (?m + 1) = ?m + 1"
  proof (rule wrap64_id)
    have "(0::int) < 2 ^ 63" by simp
    with lo show "- (2 ^ 63) \<le> ?m + 1" by linarith
    show "?m + 1 < 2 ^ 63" using hi by linarith
  qed
  then show ?thesis
    using assms(1) by (simp add: next_key_def foldl_maxKey Keys_GetAllRecords)
qed

lemmas cache_eval = run_ops_def Cache_Set_def Cache_Append_def Cache_Delete_def Cache_Update_def
  keep_on_error_def NewCache_def copyRecord_def updateSchema_def age_record_def Let_def
  client_of_def New_def on_cache_def Client_Append_def next_key_def GetAllRecords_def

text \<open>
  C3, as stated, at two caches. In a cache whose only key is 0 (after \<^verbatim>\<open>Set(0, r)\<close>),
  \<^verbatim>\<open>Append\<close> assigns the key 2, not the maximum key plus one. In a cache holding the
  largest and the smallest \<^verbatim>\<open>int\<close> as keys, \<^verbatim>\<open>maxKey + 1\<close> wraps to the smallest and
  \<^verbatim>\<open>Append\<close> returns the duplicate-key error.
\<close>

theorem C3_Append_counterexample:
  "fst (Client_Append (client_of adaptor_ok (run_ops [OpSet 0 (age_record 0 15)])) (age_record 0 20))
     = None
   \<and> map fst (data (cache (snd (Client_Append (client_of adaptor_ok
             (run_ops [OpSet 0 (age_record 0 15)])) (age_record 0 20))))) = [0, 2]
   \<and> fst (Client_Append (client_of adaptor_ok
             (run_ops [OpSet INT_MAX (age_record 0 15), OpSet INT_MIN (age_record 0 20)]))
           (age_record 0 25))
       = Some ErrDuplicateKey"
  by (simp add: cache_eval INT_MAX_def INT_MIN_def wrap64_def)

text \<open>
  C3, amended. On an open client whose cache holds no key equal to the largest \<^verbatim>\<open>int\<close>
  (the records carrying their keys, as in every cache reached from a new one),
  \<^verbatim>\<open>Append\<close> assigns the key \<open>max(1, largest key present) + 1\<close>, which is 2 for an empty
  cache and greater than every key present; it returns no error and stores the record
  under that key.
\<close>

theorem C3_Client_Append:
  assumes "\<not> closed cl" and "keys_agree (cache cl)"
    and "\<forall>k\<in>fst ` set (data (cache cl)). k < INT_MAX"
  shows "next_key (cache cl) = Max (insert 1 (fst ` set (data (cache cl)))) + 1
       \<and> (\<forall>k\<in>fst ` set (data (cache cl)). k < next_key (cache cl))
       \<and> (\<exists>c'. Client_Append cl rcd = (None, cl\<lparr>cache := c'\<rparr>)
              \<and> map_of (data c') (next_key (cache cl))
                  = Some (copyRecord (rcd\<lparr>Key := next_key (cache cl)\<rparr>)))"
proof -
  let ?c = "cache cl"
  let ?n = "next_key ?c"
  have n: "?n = Max (insert 1 (fst ` set (data ?c))) + 1"
    using assms(2,3) by (rule next_key_eq)
  have above: "k < ?n" if "k \<in> fst ` set (data ?c)" for k
  proof -
    have "k \<le> Max (insert 1 (fst ` set (data ?c)))" using that by (intro Max_ge) simp_all
    with n show ?thesis by simp
  qed
  then have "?n \<notin> fst ` set (data ?c)" by blast
  then have fresh: "map_of (data ?c) ?n = None" by (simp add: map_of_eq_None_iff)
  define c' where "c' = updateSchema
      (?c\<lparr>data := AList.update ?n (copyRecord (rcd\<lparr>Key := ?n\<rparr>)) (data ?c),
          dirty := AList.update ?n True (dirty ?c)\<rparr>) (rcd\<lparr>Key := ?n\<rparr>)"
  have "Client_Append cl rcd = (None, cl\<lparr>cache := c'\<rparr>)"
    using assms(1) fresh
    by (simp add: Client_Append_def Cache_Append_def on_cache_def Let_def c'_def)
  moreover have "map_of (data c') ?n = Some (copyRecord (rcd\<lparr>Key := ?n\<rparr>))"
    by (simp add: c'_def update_conv')
  ultimately show ?thesis using n above by blast
qed

text \<open>
  The witness deletes the record with the largest key first: the key 3 it frees is the
  one the next \<^verbatim>\<open>Append\<close> assigns.
\<close>

theorem C3_Client_Append_witness:
  "next_key (run_ops [OpSet 2 (age_record 2 15), OpSet 3 (age_record 3 20), OpDelete 3]) = 3
   \<and> (\<exists>c'. Client_Append (client_of adaptor_ok
               (run_ops [OpSet 2 (age_record 2 15), OpSet 3 (age_record 3 20), OpDelete 3]))
             (age_record 0 25)
            = (None, (client_of adaptor_ok
                 (run_ops [OpSet 2 (age_record 2 15), OpSet 3 (age_record 3 20), OpDelete 3]))
                 \<lparr>cache := c'\<rparr>)
          \<and> map_of (data c') 3 = Some (age_record 3 25))"
proof -
  let ?c = "run_ops [OpSet 2 (age_record 2 15), OpSet 3 (age_record 3 20), OpDelete 3]"
  have c: "?c = \<lparr>data = [(2, age_record 2 15)], dirty = [(2, True)], schema = [''age'']\<rparr>"
    by (simp add: cache_eval)
  have h1: "\<not> closed (client_of adaptor_ok ?c)" by (simp add: client_of_def New_def)
  have h2: "keys_agree (cache (client_of adaptor_ok ?c))"
    unfolding c by (simp add: client_of_def New_def keys_agree_def age_record_def)
  have h3: "\<forall>k\<in>fst ` set (data (cache (client_of adaptor_ok ?c))). k < INT_MAX"
    unfolding c by (simp add: client_of_def New_def INT_MAX_def)
  have cp: "copyRecord ((age_record 0 25)\<lparr>Key := 3\<rparr>) = age_record 3 25"
    by (simp add: copyRecord_def age_record_def)
  show ?thesis
    using C3_Client_Append[OF h1 h2 h3, of "age_record 0 25"] cp
    unfolding c by (auto simp: client_of_def New_def)
qed

subsection \<open>Query over the cache\<close>

lemma ApplyQuery_unpaged:
  "Limit q = 0 \<Longrightarrow> Offset q = 0 \<Longrightarrow>
   ApplyQuery fmt recs q = filter (\<lambda>r. MatchesQuery fmt r q) recs"
  by (simp add: ApplyQuery_def apply_limit_def Let_def)

lemma int_to_f64_small: "\<bar>n\<bar> < 2 ^ 53 \<Longrightarrow> int_to_f64 n = Fin (of_int n)"
  by (simp add: int_to_f64_def Let_def nat_less_iff)

lemma f64_le_Fin: "f64_le (Fin a) (Fin b) = (a \<le> b)"
  by (auto simp: f64_le_def f64_lt_def f64_eq_def)

lemma age_query_matches:
  assumes "map_of (Values r) ''age'' = Some (VInt a)" and "\<bar>a\<bar> < 2 ^ 53"
  shows "MatchesQuery fmt r age_query = (20 \<le> a \<and> a \<le> 30)"
proof -
  have "int_to_f64 20 = Fin 20" "int_to_f64 30 = Fin 30"
    by (simp_all add: int_to_f64_def)
  then show ?thesis using assms
    by (simp add: MatchesQuery_def age_query_def evalCondition_def compareGreaterEqual_def
        compareLessEqual_def int_to_f64_small f64_le_Fin)
qed

lemma copy_age_record: "copyRecord (age_record k a) = age_record k a"
  by (simp add: copyRecord_def age_record_def)

lemma age_record_sel:
  "Key (age_record k a) = k" "map_of (Values (age_record k a)) ''age'' = Some (VInt a)"
  by (simp_all add: age_record_def)

lemma ValidateQuery_age: "ValidateQuery age_query = None"
  by (simp add: ValidateQuery_def age_query_def validate_condition_def validOps_def)

text \<open>
  C5, as stated, at a cache whose map iteration visits the five records (keys 2 to 6)
  from the largest key to the smallest: the three records come back in descending key
  order.
\<close>

theorem C5_descending_counterexample:
  "Cache_Query fmt_basic \<lparr>data = rev (age_entries 2 3 4 5 6), dirty = [], schema = [''age'']\<rparr>
      age_query
     = Inr [age_record 5 30, age_record 4 25, age_record 3 20]"
  by (simp add: Cache_Query_def ValidateQuery_def validate_condition_def validOps_def
        ApplyQuery_def apply_limit_def MatchesQuery_def evalCondition_def
        compareGreaterEqual_def compareLessEqual_def f64_le_def f64_lt_def f64_eq_def
        int_to_f64_def age_query_def age_entries_def age_record_def copyRecord_def Let_def)

text \<open>
  C5, amended. For a cache holding five records with the ages 15, 20, 25, 30, 35 under
  any keys, in whatever order the iteration over the data map visits them (\<open>d\<close> is any
  arrangement of the five entries), \<^verbatim>\<open>Query\<close> with the conditions \<^verbatim>\<open>{age, >=, 20}\<close> and
  \<^verbatim>\<open>{age, <=, 30}\<close> returns exactly the three records with ages 20, 25, 30, each once,
  in the order of that iteration.
\<close>

theorem C5_Query_ages:
  assumes "mset d = mset (age_entries k1 k2 k3 k4 k5)"
  shows "Cache_Query fmt \<lparr>data = d, dirty = dy, schema = sc\<rparr> age_query
           = Inr (filter (\<lambda>r. has_age r 20 \<or> has_age r 25 \<or> has_age r 30) (map snd d))
       \<and> mset (filter (\<lambda>r. has_age r 20 \<or> has_age r 25 \<or> has_age r 30) (map snd d))
           = {#age_record k2 20, age_record k3 25, age_record k4 30#}"
proof -
  let ?P = "\<lambda>r. has_age r 20 \<or> has_age r 25 \<or> has_age r 30"
  have sd: "set d = set (age_entries k1 k2 k3 k4 k5)" using assms by (rule mset_eq_setD)
  have each: "copyRecord (snd e) = snd e \<and> MatchesQuery fmt (snd e) age_query = ?P (snd e)"
    if "e \<in> set d" for e
  proof -
    from that sd have "e \<in> set (age_entries k1 k2 k3 k4 k5)" by simp
    then obtain k a where e: "e = (k, age_record k a)" and a: "a \<in> {15, 20, 25, 30, 35}"
      by (auto simp: age_entries_def)
    from a have "\<bar>a\<bar> < 2 ^ 53" by auto
    from age_query_matches[OF age_record_sel(2) this, of fmt k] a e
    show ?thesis by (auto simp: copy_age_record has_age_def age_record_sel(2))
  qed
  have lim: "Limit age_query = 0" "Offset age_query = 0"
    by (simp_all add: age_query_def)
  have m: "map (\<lambda>(k, r). copyRecord r) d = map snd d"
    using each by (auto simp: case_prod_unfold)
  have f: "filter (\<lambda>r. MatchesQuery fmt r age_query) (map snd d) = filter ?P (map snd d)"
    using each by (intro filter_cong) auto
  have "Cache_Query fmt \<lparr>data = d, dirty = dy, schema = sc\<rparr> age_query
          = Inr (ApplyQuery fmt (map (\<lambda>(k, r). copyRecord r) d) age_query)"
    by (simp add: Cache_Query_def ValidateQuery_age)
  also have "\<dots> = Inr (filter (\<lambda>r. MatchesQuery fmt r age_query) (map snd d))"
    unfolding m by (simp only: ApplyQuery_unpaged[OF lim])
  finally have q: "Cache_Query fmt \<lparr>data = d, dirty = dy, schema = sc\<rparr> age_query
           = Inr (filter ?P (map snd d))"
    unfolding f .
  have "mset (filter ?P (map snd d)) = filter_mset ?P (image_mset snd (mset d))"
    by simp
  also have "\<dots> = {#age_record k2 20, age_record k3 25, age_record k4 30#}"
    unfolding assms by (simp add: age_entries_def has_age_def age_record_sel(2))
  finally show ?thesis using q by simp
qed

text \<open>
  The witness: the keys 2 to 6, visited in the order 4, 2, 6, 3, 5; the result has the
  keys 4, 3, 5 in that order.
\<close>

theorem C5_Query_ages_witness:
  "Cache_Query fmt_basic
      \<lparr>data = [(4, age_record 4 25), (2, age_record 2 15), (6, age_record 6 35),
               (3, age_record 3 20), (5, age_record 5 30)],
       dirty = [], schema = [''age'']\<rparr> age_query
     = Inr [age_record 4 25, age_record 3 20, age_record 5 30]"
proof -
  let ?d = "[(4, age_record 4 25), (2, age_record 2 15), (6, age_record 6 35),
             (3, age_record 3 20), (5, age_record 5 30)]"
  have h: "mset ?d = mset (age_entries 2 3 4 5 6)"
    by (simp add: age_entries_def)
  show ?thesis
    using C5_Query_ages[OF h, of fmt_basic "[]" "[''age'']"]
    by (simp add: has_age_def age_record_sel(2))
qed

subsection \<open>Saving to the adapter\<close>

lemma save_loop_exhausted:
  "\<not> i \<le> MaxRetries (config cl) \<Longrightarrow>
   save_loop cl recs sch err i = Some (Some (ErrFailedAfterRetries (MaxRetries (config cl)) err), cl)"
  by (subst save_loop.simps) simp

lemma save_loop_ok:
  "i \<le> MaxRetries (config cl) \<Longrightarrow> adaptor cl (length (adaptor_calls cl)) = None \<Longrightarrow>
   save_loop cl recs sch err i
     = Some (None, cl\<lparr>adaptor_calls := adaptor_calls cl @ [\<lparr>sc_records = recs, sc_schema = sch, sc_strategy = None\<rparr>],
                     cache := ClearDirty (cache cl)\<rparr>)"
  by (subst save_loop.simps) simp

lemma save_loop_retry:
  "i \<le> MaxRetries (config cl) \<Longrightarrow> adaptor cl (length (adaptor_calls cl)) = Some e \<Longrightarrow>
   save_loop cl recs sch err i
     = save_loop (cl\<lparr>adaptor_calls := adaptor_calls cl @ [\<lparr>sc_records = recs, sc_schema = sch, sc_strategy = None\<rparr>]\<rparr>)
         recs sch (Some e) (wrap64 (i + 1))"
  by (subst save_loop.simps) simp

lemma wrap64_succ: "0 \<le> i \<Longrightarrow> i < INT_MAX \<Longrightarrow> wrap64 (i + 1) = i + 1"
  by (simp add: wrap64_def INT_MAX_def)

text \<open>When every attempt fails, the loop returns an error after \<open>MaxRetries + 1 - i\<close> calls.\<close>

lemma save_loop_all_fail:
  assumes "MaxRetries (config cl) < INT_MAX" and "0 \<le> i"
    and "\<forall>j < nat (MaxRetries (config cl) + 1 - i). adaptor cl (length (adaptor_calls cl) + j) \<noteq> None"
  shows "\<exists>e. save_loop cl recs sch err i
           = Some (Some e, cl\<lparr>adaptor_calls := adaptor_calls cl
                 @ replicate (nat (MaxRetries (config cl) + 1 - i)) \<lparr>sc_records = recs, sc_schema = sch, sc_strategy = None\<rparr>\<rparr>)"
  using assms
proof (induction "nat (MaxRetries (config cl) + 1 - i)" arbitrary: cl err i)
  case 0
  then have "\<not> i \<le> MaxRetries (config cl)" by simp
  with 0 show ?case by (simp add: save_loop_exhausted)
next
  case (Suc n)
  let ?call = "\<lparr>sc_records = recs, sc_schema = sch, sc_strategy = None\<rparr>"
  let ?cl1 = "cl\<lparr>adaptor_calls := adaptor_calls cl @ [?call]\<rparr>"
  from Suc.hyps(2) have le: "i \<le> MaxRetries (config cl)" by simp
  from Suc.prems(3) Suc.hyps(2) have "adaptor cl (length (adaptor_calls cl) + 0) \<noteq> None"
    by (metis zero_less_Suc)
  then obtain e where e: "adaptor cl (length (adaptor_calls cl)) = Some e" by auto
  have w: "wrap64 (i + 1) = i + 1" using Suc.prems(1,2) le by (intro wrap64_succ) simp_all
  have n: "n = nat (MaxRetries (config ?cl1) + 1 - (i + 1))" using Suc.hyps(2) by simp
  have fails: "\<forall>j < nat (MaxRetries (config ?cl1) + 1 - (i + 1)).
                 adaptor ?cl1 (length (adaptor_calls ?cl1) + j) \<noteq> None"
  proof (intro allI impI)
    fix j assume "j < nat (MaxRetries (config ?cl1) + 1 - (i + 1))"
    then have "Suc j < nat (MaxRetries (config cl) + 1 - i)" by simp
    with Suc.prems(3) have "adaptor cl (length (adaptor_calls cl) + Suc j) \<noteq> None" by blast
    then show "adaptor ?cl1 (length (adaptor_calls ?cl1) + j) \<noteq> None" by simp
  qed
  from Suc.hyps(1)[OF n _ _ fails, of "Some e"] Suc.prems(1,2)
  obtain e' where "save_loop ?cl1 recs sch (Some e) (i + 1)
           = Some (Some e', ?cl1\<lparr>adaptor_calls := adaptor_calls ?cl1
                 @ replicate (nat (MaxRetries (config ?cl1) + 1 - (i + 1))) ?call\<rparr>)"
    by auto
  moreover have "nat (MaxRetries (config cl) + 1 - i) = Suc (nat (MaxRetries (config cl) + 1 - (i + 1)))"
    using le by simp
  ultimately show ?case
    using save_loop_retry[OF le e, of recs sch err] w
    by (simp add: replicate_app_Cons_same)
qed

text \<open>
  With \<open>MaxRetries\<close> below the largest \<^verbatim>\<open>int\<close> the counter does not wrap and the
  loop returns; the dirty set is cleared exactly when it returns no error.
\<close>

lemma save_loop_outcome:
  assumes "MaxRetries (config cl) < INT_MAX" and "0 \<le> i"
  shows "\<exists>res cl'. save_loop cl recs sch err i = Some (res, cl')
          \<and> (res = None \<longrightarrow> cache cl' = ClearDirty (cache cl)
                \<and> adaptor_calls cl' \<noteq> [] \<and> adaptor cl (length (adaptor_calls cl') - 1) = None)
          \<and> (res \<noteq> None \<longrightarrow> cache cl' = cache cl)"
  using assms
proof (induction "nat (MaxRetries (config cl) + 1 - i)" arbitrary: cl err i)
  case 0
  then have "\<not> i \<le> MaxRetries (config cl)" by simp
  then show ?case by (simp add: save_loop_exhausted)
next
  case (Suc n)
  let ?call = "\<lparr>sc_records = recs, sc_schema = sch, sc_strategy = None\<rparr>"
  let ?cl1 = "cl\<lparr>adaptor_calls := adaptor_calls cl @ [?call]\<rparr>"
  from Suc.hyps(2) have le: "i \<le> MaxRetries (config cl)" by simp
  show ?case
  proof (cases "adaptor cl (length (adaptor_calls cl))")
    case None
    then show ?thesis using save_loop_ok[OF le None, of recs sch err] by simp
  next
    case (Some e)
    have w: "wrap64 (i + 1) = i + 1" using Suc.prems(1,2) le by (intro wrap64_succ) simp_all
    have n: "n = nat (MaxRetries (config ?cl1) + 1 - (i + 1))" using Suc.hyps(2) by simp
    from Suc.hyps(1)[OF n, of "Some e"] Suc.prems(1,2)
    obtain res cl' where r: "save_loop ?cl1 recs sch (Some e) (i + 1) = Some (res, cl')"
      "res = None \<longrightarrow> cache cl' = ClearDirty (cache ?cl1)
          \<and> adaptor_calls cl' \<noteq> [] \<and> adaptor ?cl1 (length (adaptor_calls cl') - 1) = None"
      "res \<noteq> None \<longrightarrow> cache cl' = cache ?cl1"
      by auto
    then show ?thesis
      using save_loop_retry[OF le Some, of recs sch err] w by simp
  qed
qed

lemma dirty_cache_eq:
  "dirty_cache = \<lparr>data = [(2, age_record 2 15)], dirty = [(2, True)], schema = [''age'']\<rparr>"
  by (simp add: dirty_cache_def cache_eval)

lemma GetAllRecords_dirty_cache: "GetAllRecords dirty_cache = [age_record 2 15]"
  by (simp add: dirty_cache_eq GetAllRecords_def copyRecord_def age_record_def)

lemma GetDirtyKeys_dirty_cache: "GetDirtyKeys dirty_cache = [2]"
  by (simp add: dirty_cache_eq GetDirtyKeys_def)

lemma GetSchema_dirty_cache: "GetSchema dirty_cache = [''age'']"
  by (simp add: dirty_cache_eq GetSchema_def)

lemma GetDirtyKeys_ClearDirty: "GetDirtyKeys (ClearDirty c) = []"
  by (simp add: GetDirtyKeys_def ClearDirty_def)

text \<open>
  C2. \<^verbatim>\<open>saveToAdapter\<close>
  \<^item> returns success and leaves the client as it was, the log of adapter calls included,
    when there is no dirty key;
  \<^item> when every attempt fails (\<open>MaxRetries + 1\<close> of them), returns an error with the
    cache, hence the dirty keys, as before;
  \<^item> returns (the counter not wrapping), with the cache unchanged on an error and the
    dirty set cleared, after a successful call of the adapter, on success;
  \<^item> clears the dirty set when the adapter's next save succeeds: so does a save that
    follows a failed one.
\<close>

theorem C2_saveToAdapter:
  "(GetDirtyKeys (cache cl) = [] \<longrightarrow> saveToAdapter cl = Some (None, cl))
   \<and> (GetDirtyKeys (cache cl) \<noteq> [] \<and> MaxRetries (config cl) < INT_MAX
        \<and> (\<forall>j < nat (MaxRetries (config cl) + 1). adaptor cl (length (adaptor_calls cl) + j) \<noteq> None)
      \<longrightarrow> (\<exists>e cl'. saveToAdapter cl = Some (Some e, cl')
             \<and> cl' = cl\<lparr>adaptor_calls := adaptor_calls cl @ replicate (nat (MaxRetries (config cl) + 1))
                          \<lparr>sc_records = GetAllRecords (cache cl), sc_schema = GetSchema (cache cl), sc_strategy = None\<rparr>\<rparr>
             \<and> GetDirtyKeys (cache cl') = GetDirtyKeys (cache cl)))
   \<and> (MaxRetries (config cl) < INT_MAX
      \<longrightarrow> (\<exists>res cl'. saveToAdapter cl = Some (res, cl')
             \<and> (res \<noteq> None \<longrightarrow> cache cl' = cache cl)
             \<and> (res = None \<longrightarrow> GetDirtyKeys (cache cl') = [] \<and> data (cache cl') = data (cache cl))
             \<and> (res = None \<and> GetDirtyKeys (cache cl) \<noteq> []
                  \<longrightarrow> adaptor_calls cl' \<noteq> [] \<and> adaptor cl (length (adaptor_calls cl') - 1) = None)))
   \<and> (GetDirtyKeys (cache cl) \<noteq> [] \<and> 0 \<le> MaxRetries (config cl)
        \<and> adaptor cl (length (adaptor_calls cl)) = None
      \<longrightarrow> (\<exists>cl'. saveToAdapter cl = Some (None, cl') \<and> GetDirtyKeys (cache cl') = []))"
proof (intro conjI impI)
  assume "GetDirtyKeys (cache cl) = []"
  then show "saveToAdapter cl = Some (None, cl)" by (simp add: saveToAdapter_def)
next
  assume a: "GetDirtyKeys (cache cl) \<noteq> [] \<and> MaxRetries (config cl) < INT_MAX
        \<and> (\<forall>j < nat (MaxRetries (config cl) + 1). adaptor cl (length (adaptor_calls cl) + j) \<noteq> None)"
  then have "\<forall>j < nat (MaxRetries (config cl) + 1 - 0). adaptor cl (length (adaptor_calls cl) + j) \<noteq> None"
    by simp
  from save_loop_all_fail[OF _ _ this, of "GetAllRecords (cache cl)" "GetSchema (cache cl)" None] a
  show "\<exists>e cl'. saveToAdapter cl = Some (Some e, cl')
             \<and> cl' = cl\<lparr>adaptor_calls := adaptor_calls cl @ replicate (nat (MaxRetries (config cl) + 1))
                          \<lparr>sc_records = GetAllRecords (cache cl), sc_schema = GetSchema (cache cl), sc_strategy = None\<rparr>\<rparr>
             \<and> GetDirtyKeys (cache cl') = GetDirtyKeys (cache cl)"
    by (auto simp: saveToAdapter_def)
next
  assume m: "MaxRetries (config cl) < INT_MAX"
  show "\<exists>res cl'. saveToAdapter cl = Some (res, cl')
             \<and> (res \<noteq> None \<longrightarrow> cache cl' = cache cl)
             \<and> (res = None \<longrightarrow> GetDirtyKeys (cache cl') = [] \<and> data (cache cl') = data (cache cl))
             \<and> (res = None \<and> GetDirtyKeys (cache cl) \<noteq> []
                  \<longrightarrow> adaptor_calls cl' \<noteq> [] \<and> adaptor cl (length (adaptor_calls cl') - 1) = None)"
  proof (cases "GetDirtyKeys (cache cl) = []")
    case True
    then show ?thesis by (simp add: saveToAdapter_def)
  next
    case False
    from save_loop_outcome[OF m, of 0 "GetAllRecords (cache cl)" "GetSchema (cache cl)" None]
    obtain res cl' where r: "save_loop cl (GetAllRecords (cache cl)) (GetSchema (cache cl)) None 0 = Some (res, cl')"
      "res = None \<longrightarrow> cache cl' = ClearDirty (cache cl)
          \<and> adaptor_calls cl' \<noteq> [] \<and> adaptor cl (length (adaptor_calls cl') - 1) = None"
      "res \<noteq> None \<longrightarrow> cache cl' = cache cl"
      by auto
    have "saveToAdapter cl = Some (res, cl')" using False r(1) by (simp add: saveToAdapter_def)
    moreover have "res = None \<longrightarrow> GetDirtyKeys (cache cl') = [] \<and> data (cache cl') = data (cache cl)"
      using r(2) by (auto simp: GetDirtyKeys_ClearDirty) (simp add: ClearDirty_def)
    ultimately show ?thesis using r(2,3) by blast
  qed
next
  assume a: "GetDirtyKeys (cache cl) \<noteq> [] \<and> 0 \<le> MaxRetries (config cl)
        \<and> adaptor cl (length (adaptor_calls cl)) = None"
  then have "saveToAdapter cl = Some (None, cl\<lparr>adaptor_calls := adaptor_calls cl
        @ [\<lparr>sc_records = GetAllRecords (cache cl), sc_schema = GetSchema (cache cl), sc_strategy = None\<rparr>],
        cache := ClearDirty (cache cl)\<rparr>)"
    by (simp add: saveToAdapter_def save_loop_ok)
  then show "\<exists>cl'. saveToAdapter cl = Some (None, cl') \<and> GetDirtyKeys (cache cl') = []"
    by (simp add: GetDirtyKeys_ClearDirty)
qed

lemma client_of_sel:
  "cache (client_of a c) = c" "adaptor (client_of a c) = a" "adaptor_calls (client_of a c) = []"
  "MaxRetries (config (client_of a c)) = 3" "closed (client_of a c) = False"
  "syncManager (client_of a c) = True"
  by (simp_all add: client_of_def New_def)

text \<open>
  The witness: no dirty key; then an adapter whose first four saves fail, a save that
  fails after its four attempts and leaves key 2 dirty, and the next save, which clears it.
\<close>

theorem C2_saveToAdapter_witness:
  "saveToAdapter (client_of adaptor_ok NewCache) = Some (None, client_of adaptor_ok NewCache)
   \<and> (\<exists>e. saveToAdapter (client_of (adaptor_failing 4) dirty_cache)
            = Some (Some e, (client_of (adaptor_failing 4) dirty_cache)
                              \<lparr>adaptor_calls := replicate 4 dirty_cache_call\<rparr>))
   \<and> GetDirtyKeys (cache ((client_of (adaptor_failing 4) dirty_cache)
                              \<lparr>adaptor_calls := replicate 4 dirty_cache_call\<rparr>)) = [2]
   \<and> (\<exists>cl'. saveToAdapter ((client_of (adaptor_failing 4) dirty_cache)
                              \<lparr>adaptor_calls := replicate 4 dirty_cache_call\<rparr>) = Some (None, cl')
          \<and> GetDirtyKeys (cache cl') = [])"
proof -
  let ?cl0 = "client_of (adaptor_failing 4) dirty_cache"
  let ?cl1 = "?cl0\<lparr>adaptor_calls := replicate 4 dirty_cache_call\<rparr>"
  have a: "saveToAdapter (client_of adaptor_ok NewCache) = Some (None, client_of adaptor_ok NewCache)"
    using C2_saveToAdapter[of "client_of adaptor_ok NewCache"]
    by (simp add: client_of_sel GetDirtyKeys_def NewCache_def)
  have h: "GetDirtyKeys (cache ?cl0) \<noteq> [] \<and> MaxRetries (config ?cl0) < INT_MAX
        \<and> (\<forall>j < nat (MaxRetries (config ?cl0) + 1). adaptor ?cl0 (length (adaptor_calls ?cl0) + j) \<noteq> None)"
    by (simp add: client_of_sel GetDirtyKeys_dirty_cache INT_MAX_def adaptor_failing_def)
  have b: "\<exists>e. saveToAdapter ?cl0 = Some (Some e, ?cl1)"
    using C2_saveToAdapter[of ?cl0] h
    by (simp add: client_of_sel GetAllRecords_dirty_cache GetSchema_dirty_cache dirty_cache_call_def
          numeral_eq_Suc)
  have d: "GetDirtyKeys (cache ?cl1) = [2]"
    by (simp add: client_of_sel GetDirtyKeys_dirty_cache)
  have h': "GetDirtyKeys (cache ?cl1) \<noteq> [] \<and> 0 \<le> MaxRetries (config ?cl1)
        \<and> adaptor ?cl1 (length (adaptor_calls ?cl1)) = None"
    by (simp add: client_of_sel GetDirtyKeys_dirty_cache adaptor_failing_def)
  have c: "\<exists>cl'. saveToAdapter ?cl1 = Some (None, cl') \<and> GetDirtyKeys (cache cl') = []"
    using C2_saveToAdapter[of ?cl1] h' by blast
  from a b d c show ?thesis by blast
qed

subsection \<open>The calls of Sync, of a tick and of Close\<close>










subsection \<open>A save beside calls of the client\<close>

text \<open>Run alone, the steps of the save compute \<^verbatim>\<open>saveToAdapter\<close>.\<close>

lemma saver_done: "(saver_step ^^ n) (cl, SvDone res) = (cl, SvDone res)"
  by (induction n) simp_all

lemma saver_loop_link:
  "(saver_step ^^ n) (cl, SvLoop recs sch err i) = (cl', SvDone res) \<Longrightarrow>
   save_loop cl recs sch err i = Some (res, cl')"
proof (induction n arbitrary: cl err i rule: less_induct)
  case (less n)
  show ?case
  proof (cases n)
    case 0
    with less.prems show ?thesis by simp
  next
    case (Suc m)
    let ?cl1 = "cl\<lparr>adaptor_calls := adaptor_calls cl @ [\<lparr>sc_records = recs, sc_schema = sch, sc_strategy = None\<rparr>]\<rparr>"
    show ?thesis
    proof (cases "i \<le> MaxRetries (config cl)")
      case False
      with less.prems Suc show ?thesis
        by (auto simp: funpow_Suc_right saver_done save_loop_exhausted simp del: funpow.simps)
    next
      case le: True
      show ?thesis
      proof (cases "adaptor cl (length (adaptor_calls cl))")
        case None
        with le less.prems Suc have m: "(saver_step ^^ m) (?cl1, SvSaved) = (cl', SvDone res)"
          by (simp add: funpow_Suc_right del: funpow.simps)
        then obtain k where k: "m = Suc k" by (cases m) auto
        with m have "(cl', SvDone res) = (?cl1\<lparr>cache := ClearDirty (cache ?cl1)\<rparr>, SvDone None)"
          by (simp add: funpow_Suc_right saver_done del: funpow.simps)
        then show ?thesis using save_loop_ok[OF le None, of recs sch err] by simp
      next
        case (Some e)
        with le less.prems Suc
        have "(saver_step ^^ m) (?cl1, SvLoop recs sch (Some e) (wrap64 (i + 1))) = (cl', SvDone res)"
          by (simp add: funpow_Suc_right del: funpow.simps)
        then have "save_loop ?cl1 recs sch (Some e) (wrap64 (i + 1)) = Some (res, cl')"
          using less.IH[of m] Suc by simp
        then show ?thesis using save_loop_retry[OF le Some, of recs sch err] by simp
      qed
    qed
  qed
qed

lemma saver_alone:
  assumes "(saver_step ^^ n) (cl, SvStart) = (cl', SvDone res)"
  shows "saveToAdapter cl = Some (res, cl')"
proof (cases "GetDirtyKeys (cache cl) = []")
  case True
  have "n \<noteq> 0" using assms by (cases n) auto
  then obtain m where "n = Suc m" by (cases n) auto
  with assms True show ?thesis
    by (simp add: funpow_Suc_right saver_done saveToAdapter_def del: funpow.simps)
next
  case False
  obtain a where a: "n = Suc a" using assms by (cases n) auto
  with assms False have 1: "(saver_step ^^ a) (cl, SvGotDirty (GetDirtyKeys (cache cl))) = (cl', SvDone res)"
    by (simp add: funpow_Suc_right del: funpow.simps)
  then obtain b where b: "a = Suc b" by (cases a) auto
  with 1 have 2: "(saver_step ^^ b) (cl, SvGotRecords (GetAllRecords (cache cl))) = (cl', SvDone res)"
    by (simp add: funpow_Suc_right del: funpow.simps)
  then obtain c where c: "b = Suc c" by (cases b) auto
  with 2 have "(saver_step ^^ c) (cl, SvLoop (GetAllRecords (cache cl)) (GetSchema (cache cl)) None 0)
                 = (cl', SvDone res)"
    by (simp add: funpow_Suc_right del: funpow.simps)
  then have "save_loop cl (GetAllRecords (cache cl)) (GetSchema (cache cl)) None 0 = Some (res, cl')"
    by (rule saver_loop_link)
  with False show ?thesis by (simp add: saveToAdapter_def)
qed

lemma run_events_saver_only:
  "run_events st (replicate n SaverStep) = (saver_step ^^ n) st"
proof (induction n arbitrary: st)
  case 0
  show ?case by (simp add: run_events_def)
next
  case (Suc n)
  obtain cl sv where st: "st = (cl, sv)" by (cases st)
  show ?case using Suc[of "saver_step st"]
    by (simp add: run_events_def st funpow_Suc_right del: funpow.simps)
qed

text \<open>
  C9. A scheduled save of a cache with the dirty key 2 takes its snapshot (dirty keys,
  records, schema); the client then sets key 3; the save calls the adapter with the
  snapshot, which lacks key 3, and on success clears the whole dirty set. The save
  returns without error, record 3 is in the cache, was never passed to the adapter, and
  is not dirty: the claim says it is still dirty.
\<close>

theorem C9_mutation_after_snapshot_not_dirty:
  "snd (run_events (client_of adaptor_ok dirty_cache, SvStart)
          [SaverStep, SaverStep, SaverStep, Caller (CallSet 3 (age_record 3 20)), SaverStep, SaverStep])
     = SvDone None
   \<and> adaptor_calls (fst (run_events (client_of adaptor_ok dirty_cache, SvStart)
          [SaverStep, SaverStep, SaverStep, Caller (CallSet 3 (age_record 3 20)), SaverStep, SaverStep]))
     = [dirty_cache_call]
   \<and> Cache_Get (cache (fst (run_events (client_of adaptor_ok dirty_cache, SvStart)
          [SaverStep, SaverStep, SaverStep, Caller (CallSet 3 (age_record 3 20)), SaverStep, SaverStep]))) 3
     = Inr (age_record 3 20)
   \<and> GetDirtyKeys (cache (fst (run_events (client_of adaptor_ok dirty_cache, SvStart)
          [SaverStep, SaverStep, SaverStep, Caller (CallSet 3 (age_record 3 20)), SaverStep, SaverStep])))
     = []"
  by (simp add: run_events_def client_of_sel GetDirtyKeys_dirty_cache GetAllRecords_dirty_cache
        GetSchema_dirty_cache)
     (simp add: Client_Set_def on_cache_def client_of_sel Cache_Set_def dirty_cache_eq Let_def
        adaptor_ok_def dirty_cache_call_def ClearDirty_def GetDirtyKeys_def Cache_Get_def
        copyRecord_def age_record_def updateSchema_def)

end
